theory Spec2Isabelle
  imports Main
begin

unbundle bit_operations_syntax

section \<open>The command line front end of the enigma simulator\<close>

text \<open>
  This theory embeds \<^verbatim>\<open>enigma_cli.py\<close>. The script is Python 2 (it calls
  \<^verbatim>\<open>raw_input\<close>), so its strings are byte strings: a \<^typ>\<open>string\<close> here, one
  \<^typ>\<open>char\<close> per byte. The script never sets a locale, so \<^verbatim>\<open>isalpha\<close>,
  \<^verbatim>\<open>isdigit\<close> and \<^verbatim>\<open>upper\<close> are those of the C locale and look at ASCII only.
  Iterating over a string yields its characters one by one; a one-character string is
  written \<open>[c]\<close> where the source uses it as a string (as a dictionary key).
\<close>

subsection \<open>Python built-ins used by the script\<close>

datatype error =
    ValueError  \<comment> \<open>\<^verbatim>\<open>1 << n\<close> with a negative \<open>n\<close>\<close>
  | EOFError    \<comment> \<open>\<^verbatim>\<open>raw_input\<close> at the end of the input\<close>

definition ord :: "char \<Rightarrow> int" where
  "ord c = of_char c"

definition char_isalpha :: "char \<Rightarrow> bool" where
  "char_isalpha c \<longleftrightarrow>
     (ord CHR ''A'' \<le> ord c \<and> ord c \<le> ord CHR ''Z'') \<or>
     (ord CHR ''a'' \<le> ord c \<and> ord c \<le> ord CHR ''z'')"

definition char_isdigit :: "char \<Rightarrow> bool" where
  "char_isdigit c \<longleftrightarrow> ord CHR ''0'' \<le> ord c \<and> ord c \<le> ord CHR ''9''"

text \<open>\<^verbatim>\<open>s.isalpha()\<close> and \<^verbatim>\<open>s.isdigit()\<close> are false on the empty string.\<close>

definition isalpha :: "string \<Rightarrow> bool" where
  "isalpha s \<longleftrightarrow> s \<noteq> [] \<and> list_all char_isalpha s"

definition isdigit :: "string \<Rightarrow> bool" where
  "isdigit s \<longleftrightarrow> s \<noteq> [] \<and> list_all char_isdigit s"

definition char_upper :: "char \<Rightarrow> char" where
  "char_upper c =
     (if ord CHR ''a'' \<le> ord c \<and> ord c \<le> ord CHR ''z''
      then char_of (ord c - 32) else c)"

definition upper :: "string \<Rightarrow> string" where
  "upper s = map char_upper s"

definition newline :: char where
  "newline = CHR 0x0A"

text \<open>\<^verbatim>\<open>s.endswith('\n')\<close>\<close>

definition endswith_newline :: "string \<Rightarrow> bool" where
  "endswith_newline s \<longleftrightarrow> s \<noteq> [] \<and> last s = newline"

text \<open>\<^verbatim>\<open>s[i:j]\<close> for \<open>0 \<le> i \<le> j\<close>: the slice is cut at the end of the string.\<close>

definition slice :: "string \<Rightarrow> nat \<Rightarrow> nat \<Rightarrow> string" where
  "slice s i j = take (j - i) (drop i s)"

text \<open>\<^verbatim>\<open>range(0, n, 2)\<close>: the \<open>(n + 1) div 2\<close> numbers \<open>0, 2, 4, ...\<close> below \<open>n\<close>.\<close>

definition range_by_2 :: "nat \<Rightarrow> nat list" where
  "range_by_2 n = map (\<lambda>k. 2 * k) [0..<(n + 1) div 2]"

text \<open>\<^verbatim>\<open>a << n\<close> on Python's unbounded integers raises on a negative shift count.\<close>

definition lshift :: "int \<Rightarrow> int \<Rightarrow> error + int" where
  "lshift a n = (if n < 0 then Inl ValueError else Inr (push_bit (nat n) a))"

text \<open>
  \<^verbatim>\<open>raw_input(prompt)\<close> reads one line of the standard input and returns it without its
  line terminator; a last line that the end of the input cuts short is returned as it is,
  and nothing left to read raises. The standard input is the string of all that will be
  read from it. (Writing the prompt is an event of the caller's trace.)
\<close>

definition raw_input :: "string \<Rightarrow> error + string" where
  "raw_input stdin =
     (if stdin = [] then Inl EOFError else Inr (takeWhile (\<lambda>c. c \<noteq> newline) stdin))"

subsection \<open>The wheel table\<close>

definition WHEELS_DICT :: "string \<rightharpoonup> string" where
  "WHEELS_DICT = [''1'' \<mapsto> ''I'', ''2'' \<mapsto> ''II'', ''3'' \<mapsto> ''III'', ''5'' \<mapsto> ''V'']"

subsection \<open>The validators\<close>

text \<open>The loop of \<^verbatim>\<open>valid_plugboard\<close> over the characters, \<open>bit_map\<close> being its state.\<close>

fun plugboard_loop :: "string \<Rightarrow> int \<Rightarrow> error + bool" where
  "plugboard_loop [] bit_map = Inr True"
| "plugboard_loop (character # rest) bit_map =
     (let bit_offset = ord (char_upper character) - ord CHR ''A'' in
      case lshift 1 bit_offset of
        Inl e \<Rightarrow> Inl e
      | Inr seen \<Rightarrow>
          if bit_map AND seen \<noteq> 0 then Inr False
          else (case lshift 1 bit_offset of
                  Inl e \<Rightarrow> Inl e
                | Inr new \<Rightarrow> plugboard_loop rest (bit_map OR new)))"

definition valid_plugboard :: "string \<Rightarrow> error + bool" where
  "valid_plugboard plug_info =
     (let len = int (length plug_info) in
      if \<not> isalpha plug_info \<or> \<not> (2 \<le> len \<and> len \<le> 12) \<or> len mod 2 = 1
      then Inr False
      else plugboard_loop plug_info 0)"

fun wheel_loop :: "string \<Rightarrow> error + bool" where
  "wheel_loop [] = Inr True"
| "wheel_loop (wheel # rest) =
     (if WHEELS_DICT [wheel] = None then Inr False else wheel_loop rest)"

definition valid_wheel_info :: "string \<Rightarrow> error + bool" where
  "valid_wheel_info wheel_info =
     (if length wheel_info \<noteq> 3 then Inr False
      else if \<not> isdigit wheel_info then Inr False
      else wheel_loop wheel_info)"

subsection \<open>Translating the parameters and reading the text\<close>

text \<open>\<^verbatim>\<open>[WHEELS_DICT.get(rotor) for rotor in args.w]\<close>; \<open>None\<close> is Python's \<^verbatim>\<open>None\<close>.\<close>

definition rotor_order :: "string \<Rightarrow> string option list" where
  "rotor_order w = map (\<lambda>rotor. WHEELS_DICT [rotor]) w"

text \<open>\<^verbatim>\<open>[args.s[i:i + 2] for i in range(0, len(args.s), 2)]\<close>\<close>

definition plug_swaps :: "string \<Rightarrow> string list" where
  "plug_swaps s = map (\<lambda>i. slice s i (i + 2)) (range_by_2 (length s))"

text \<open>
  The body of the loop over \<^verbatim>\<open>sys.stdin.read()\<close>: the loop variable, which the source
  calls \<open>line\<close>, is one character of the string read.
\<close>

definition stream_step :: "string \<Rightarrow> char \<Rightarrow> string" where
  "stream_step input_buffer line =
     (let input_buffer = input_buffer @ [line] in
      if endswith_newline input_buffer then butlast input_buffer else input_buffer)"

definition read_stream :: "string \<Rightarrow> string" where
  "read_stream stdin = foldl stream_step [] stdin"

subsection \<open>The engine, the trace of a run\<close>

text \<open>
  The module \<^verbatim>\<open>machine\<close> is a parameter: what its constructor and its two methods
  compute is left open. The state of the engine is passed explicitly.
\<close>

record 'e engine =
  Enigma :: "string \<Rightarrow> string option list \<Rightarrow> 'e"
  set_plugs :: "'e \<Rightarrow> string list \<Rightarrow> 'e"
  encipher :: "'e \<Rightarrow> string \<Rightarrow> string"

text \<open>What a run does to the outside, in order, and how it ends.\<close>

datatype event =
    Stdout string                            \<comment> \<open>bytes written to the standard output\<close>
  | Construct string "string option list"    \<comment> \<open>\<^verbatim>\<open>machine.Enigma(key=..., rotor_order=...)\<close>\<close>
  | SetPlugs "string list"                   \<comment> \<open>\<^verbatim>\<open>enigma.set_plugs(...)\<close>\<close>
  | Encipher string                          \<comment> \<open>\<^verbatim>\<open>enigma.encipher(...)\<close>\<close>

datatype outcome =
    Returned
  | Exit int        \<comment> \<open>\<^verbatim>\<open>sys.exit(n)\<close>\<close>
  | Raised error

text \<open>\<^verbatim>\<open>print(s)\<close> writes \<open>s\<close> and a line terminator.\<close>

definition print :: "string \<Rightarrow> event" where
  "print s = Stdout (s @ [newline])"

text \<open>The parsed arguments \<^verbatim>\<open>args.w\<close>, \<^verbatim>\<open>args.m\<close>, \<^verbatim>\<open>args.s\<close> and \<^verbatim>\<open>args.p\<close>.\<close>

record args =
  arg_w :: string
  arg_m :: string
  arg_s :: "string option"
  arg_p :: bool

definition prompt :: string where
  "prompt = ''Enter your text and press <Enter>: ''"

definition process_request :: "'e engine \<Rightarrow> args \<Rightarrow> string \<Rightarrow> event list \<times> outcome" where
  "process_request eng a stdin =
     (let order = rotor_order (arg_w a);
          key = upper (arg_m a);
          enigma = Enigma eng key order;
          built = [Construct key order];
          (enigma, plugged) =
            (case arg_s a of
               None \<Rightarrow> (enigma, [])
             | Some s \<Rightarrow>
                 (let swaps = plug_swaps s in (set_plugs eng enigma swaps, [SetPlugs swaps])))
      in if arg_p a then
           (case raw_input stdin of
              Inl e \<Rightarrow> (built @ plugged @ [Stdout prompt], Raised e)
            | Inr input_buffer \<Rightarrow>
                (built @ plugged @
                   [Stdout prompt, Encipher input_buffer,
                    print (encipher eng enigma input_buffer)],
                 Returned))
         else
           (let input_buffer = read_stream stdin in
            (built @ plugged @
               [Encipher input_buffer, print (encipher eng enigma input_buffer)],
             Returned)))"

definition invalid_m :: string where
  "invalid_m = ''Invalid -m parameter, expected three letters.''"

definition invalid_w :: string where
  "invalid_w = ''Invalid -w parameter, expected a three digit number. Valid digits are\<newline>1, 2, 3, and 5.''"

definition invalid_s :: string where
  "invalid_s = ''Invalid -s parameter, expected single string with an even number of\<newline>letters with no duplicates, maximum letter count is 12.''"

text \<open>
  \<^verbatim>\<open>main\<close> after \<^verbatim>\<open>parse_args\<close>: the checks of the parsed arguments, then the request.
\<close>

definition main :: "'e engine \<Rightarrow> args \<Rightarrow> string \<Rightarrow> event list \<times> outcome" where
  "main eng a stdin =
     (if length (arg_m a) \<noteq> 3 \<or> \<not> isalpha (arg_m a) then ([print invalid_m], Exit 1)
      else
        case valid_wheel_info (arg_w a) of
          Inl e \<Rightarrow> ([], Raised e)
        | Inr wheels_ok \<Rightarrow>
            if \<not> wheels_ok then ([print invalid_w], Exit 1)
            else
              (case arg_s a of
                 None \<Rightarrow> process_request eng a stdin
               | Some s \<Rightarrow>
                   (case valid_plugboard s of
                      Inl e \<Rightarrow> ([], Raised e)
                    | Inr plugs_ok \<Rightarrow>
                        if \<not> plugs_ok then ([print invalid_s], Exit 1)
                        else process_request eng a stdin)))"

subsection \<open>The validators as the specification words them\<close>

text \<open>
  The alphabets are written out, and two letters are the same letter, whatever their
  case, when their lower-case forms are equal.
\<close>

definition decimal_digits :: string where
  "decimal_digits = ''0123456789''"

definition letters :: string where
  "letters = ''ABCDEFGHIJKLMNOPQRSTUVWXYZabcdefghijklmnopqrstuvwxyz''"

definition casefold :: "char \<Rightarrow> char" where
  "casefold c =
     (if ord CHR ''A'' \<le> ord c \<and> ord c \<le> ord CHR ''Z''
      then char_of (ord c + 32) else c)"

definition spec_isValidRotorOrder :: "string \<Rightarrow> bool" where
  "spec_isValidRotorOrder s \<longleftrightarrow>
     length s = 3 \<and> (\<forall>c\<in>set s. c \<in> set decimal_digits) \<and> (\<forall>c\<in>set s. c \<in> set ''1235'')"

definition spec_isValidPlugboard :: "string \<Rightarrow> bool" where
  "spec_isValidPlugboard s \<longleftrightarrow>
     s \<noteq> [] \<and> (\<forall>c\<in>set s. c \<in> set letters) \<and> 2 \<le> length s \<and> length s \<le> 12 \<and>
     even (length s) \<and> distinct (map casefold s)"

text \<open>The position in the alphabet that \<^verbatim>\<open>valid_plugboard\<close> computes for a character.\<close>

definition letter_offset :: "char \<Rightarrow> int" where
  "letter_offset c = ord (char_upper c) - ord CHR ''A''"

subsection \<open>Reading a trace\<close>

text \<open>The texts handed to \<^verbatim>\<open>enigma.encipher\<close> in a run, in order.\<close>

fun encipher_calls :: "event list \<Rightarrow> string list" where
  "encipher_calls [] = []"
| "encipher_calls (Encipher text # evs) = text # encipher_calls evs"
| "encipher_calls (_ # evs) = encipher_calls evs"

text \<open>Whether an event is a call into the module \<^verbatim>\<open>machine\<close>.\<close>

fun uses_engine :: "event \<Rightarrow> bool" where
  "uses_engine (Stdout _) = False"
| "uses_engine _ = True"

text \<open>An engine for worked examples: no state, and a text is enciphered to itself.\<close>

definition echo_engine :: "unit engine" where
  "echo_engine = \<lparr>Enigma = (\<lambda>key order. ()), set_plugs = (\<lambda>enigma swaps. ()),
     encipher = (\<lambda>enigma text. text)\<rparr>"

section \<open>Properties\<close>

subsection \<open>Characters\<close>

lemma ord_eq_iff: "ord a = ord b \<longleftrightarrow> a = b"
  by (simp add: ord_def)

lemma digit_codes: "[48..57] = map ord decimal_digits"
  by (simp add: upto_rec_numeral decimal_digits_def ord_def)

lemma upper_codes: "[65..90] = map ord ''ABCDEFGHIJKLMNOPQRSTUVWXYZ''"
  by (simp add: upto_rec_numeral ord_def)

lemma lower_codes: "[97..122] = map ord ''abcdefghijklmnopqrstuvwxyz''"
  by (simp add: upto_rec_numeral ord_def)

lemma letters_split:
  "set letters = set ''ABCDEFGHIJKLMNOPQRSTUVWXYZ'' \<union> set ''abcdefghijklmnopqrstuvwxyz''"
  unfolding letters_def by (simp only: set_append [symmetric]) simp

lemma char_isdigit_iff: "char_isdigit c \<longleftrightarrow> c \<in> set decimal_digits"
proof
  assume "char_isdigit c"
  then have "ord c \<in> {48..57}"
    by (simp add: char_isdigit_def ord_def)
  then have "ord c \<in> set [48..57]"
    by (simp only: set_upto)
  then have "ord c \<in> ord ` set decimal_digits"
    by (simp only: digit_codes set_map)
  then show "c \<in> set decimal_digits"
    by (auto simp: ord_eq_iff)
next
  assume "c \<in> set decimal_digits"
  then show "char_isdigit c"
    by (auto simp: decimal_digits_def char_isdigit_def ord_def)
qed

lemma char_isalpha_iff: "char_isalpha c \<longleftrightarrow> c \<in> set letters"
proof
  assume "char_isalpha c"
  then have "ord c \<in> {65..90} \<or> ord c \<in> {97..122}"
    by (simp add: char_isalpha_def ord_def)
  then have "ord c \<in> set [65..90] \<or> ord c \<in> set [97..122]"
    by (simp only: set_upto)
  then have "ord c \<in> ord ` set letters"
    by (simp only: upper_codes lower_codes set_map letters_split image_Un Un_iff)
  then show "c \<in> set letters"
    by (auto simp: ord_eq_iff)
next
  assume "c \<in> set letters"
  then show "char_isalpha c"
    by (auto simp: letters_def char_isalpha_def ord_def)
qed

lemma WHEELS_DICT_None: "WHEELS_DICT [c] = None \<longleftrightarrow> c \<notin> set ''1235''"
  by (simp add: WHEELS_DICT_def)

lemma wheel_loop_eq: "wheel_loop s = Inr (\<forall>c\<in>set s. WHEELS_DICT [c] \<noteq> None)"
  by (induction s) auto

lemma valid_wheel_info_eq: "valid_wheel_info s = Inr (spec_isValidRotorOrder s)"
  by (simp add: valid_wheel_info_def spec_isValidRotorOrder_def isdigit_def wheel_loop_eq
      list_all_iff char_isdigit_iff WHEELS_DICT_None del: set_simps)

lemma ord_char_upper:
  "ord (char_upper c) = (if 97 \<le> ord c \<and> ord c \<le> 122 then ord c - 32 else ord c)"
  by (simp add: char_upper_def ord_def)

lemma ord_casefold:
  "ord (casefold c) = (if 65 \<le> ord c \<and> ord c \<le> 90 then ord c + 32 else ord c)"
  by (simp add: casefold_def ord_def)

lemma ord_letters_consts:
  "ord CHR ''A'' = 65" "ord CHR ''Z'' = 90" "ord CHR ''a'' = 97" "ord CHR ''z'' = 122"
  by (simp_all add: ord_def)

lemma letter_offset_range:
  "char_isalpha c \<Longrightarrow> 0 \<le> letter_offset c \<and> letter_offset c < 26"
  unfolding letter_offset_def ord_char_upper char_isalpha_def ord_letters_consts
  by presburger

lemma letter_offset_eq_iff:
  "char_isalpha a \<Longrightarrow> char_isalpha b \<Longrightarrow>
   letter_offset a = letter_offset b \<longleftrightarrow> casefold a = casefold b"
proof -
  assume "char_isalpha a" "char_isalpha b"
  then have "letter_offset a = letter_offset b \<longleftrightarrow> ord (casefold a) = ord (casefold b)"
    unfolding letter_offset_def ord_char_upper ord_casefold char_isalpha_def ord_letters_consts
    by presburger
  then show ?thesis by (simp add: ord_eq_iff)
qed


lemma lshift_nonneg: "0 \<le> n \<Longrightarrow> lshift 1 n = Inr (2 ^ nat n)"
  by (simp add: lshift_def)

lemma and_bit_nonzero: "(k::int) AND 2 ^ n \<noteq> 0 \<longleftrightarrow> bit k n"
  using bit_iff_and_push_bit_not_eq_0 [of k n] by simp

lemma bit_or_bit: "bit ((k::int) OR 2 ^ n) m \<longleftrightarrow> bit k m \<or> m = n"
  by (auto simp: bit_or_iff bit_exp_iff)

lemma plugboard_loop_step:
  assumes "0 \<le> letter_offset c"
  shows "plugboard_loop (c # s) bit_map =
     (if bit bit_map (nat (letter_offset c)) then Inr False
      else plugboard_loop s (bit_map OR 2 ^ nat (letter_offset c)))"
  using assms
  by (simp add: letter_offset_def [symmetric] lshift_nonneg and_bit_nonzero Let_def)

lemma plugboard_loop_eq:
  "list_all char_isalpha s \<Longrightarrow>
   plugboard_loop s bit_map =
     Inr (distinct (map letter_offset s) \<and> (\<forall>c\<in>set s. \<not> bit bit_map (nat (letter_offset c))))"
proof (induction s arbitrary: bit_map)
  case Nil
  then show ?case by simp
next
  case (Cons c s)
  from Cons.prems have alpha: "char_isalpha c" and rest: "list_all char_isalpha s"
    by simp_all
  have off: "0 \<le> letter_offset c"
    using letter_offset_range [OF alpha] by simp
  have others: "\<forall>d\<in>set s. 0 \<le> letter_offset d"
    using rest letter_offset_range by (auto simp: list_all_iff)
  have same: "nat (letter_offset d) = nat (letter_offset c) \<longleftrightarrow> letter_offset d = letter_offset c"
    if "d \<in> set s" for d
    using off others that by auto
  show ?case
  proof (cases "bit bit_map (nat (letter_offset c))")
    case True
    then show ?thesis
      unfolding plugboard_loop_step [OF off] by simp
  next
    case False
    have "plugboard_loop (c # s) bit_map =
        plugboard_loop s (bit_map OR 2 ^ nat (letter_offset c))"
      unfolding plugboard_loop_step [OF off] using False by simp
    also have "\<dots> = Inr (distinct (map letter_offset s) \<and>
        (\<forall>d\<in>set s. \<not> bit (bit_map OR 2 ^ nat (letter_offset c)) (nat (letter_offset d))))"
      by (rule Cons.IH [OF rest])
    also have "\<dots> = Inr (distinct (map letter_offset (c # s)) \<and>
        (\<forall>d\<in>set (c # s). \<not> bit bit_map (nat (letter_offset d))))"
    proof -
      have fresh: "(\<forall>d\<in>set s. \<not> bit (bit_map OR 2 ^ nat (letter_offset c)) (nat (letter_offset d)))
          \<longleftrightarrow> (\<forall>d\<in>set s. \<not> bit bit_map (nat (letter_offset d)) \<and> letter_offset d \<noteq> letter_offset c)"
        using same by (simp add: bit_or_bit)
      have new: "letter_offset c \<notin> letter_offset ` set s
          \<longleftrightarrow> (\<forall>d\<in>set s. letter_offset d \<noteq> letter_offset c)"
        by (metis image_iff)
      show ?thesis
        unfolding fresh using False new by auto
    qed
    finally show ?thesis .
  qed
qed

lemma distinct_offsets_iff:
  assumes "list_all char_isalpha s"
  shows "distinct (map letter_offset s) \<longleftrightarrow> distinct (map casefold s)"
proof -
  have eq: "letter_offset a = letter_offset b \<longleftrightarrow> casefold a = casefold b"
    if "a \<in> set s" "b \<in> set s" for a b
  proof -
    from that assms have "char_isalpha a" "char_isalpha b"
      by (simp_all add: list_all_iff)
    then show ?thesis by (rule letter_offset_eq_iff)
  qed
  have "inj_on letter_offset (set s) \<longleftrightarrow> inj_on casefold (set s)"
  proof
    assume inj: "inj_on letter_offset (set s)"
    show "inj_on casefold (set s)"
    proof (rule inj_onI)
      fix a b
      assume ab: "a \<in> set s" "b \<in> set s" and "casefold a = casefold b"
      then have "letter_offset a = letter_offset b" by (simp add: eq)
      with inj ab show "a = b" by (simp add: inj_on_def)
    qed
  next
    assume inj: "inj_on casefold (set s)"
    show "inj_on letter_offset (set s)"
    proof (rule inj_onI)
      fix a b
      assume ab: "a \<in> set s" "b \<in> set s" and "letter_offset a = letter_offset b"
      then have "casefold a = casefold b" by (simp add: eq)
      with inj ab show "a = b" by (simp add: inj_on_def)
    qed
  qed
  then show ?thesis by (simp add: distinct_map)
qed

lemma valid_plugboard_eq: "valid_plugboard s = Inr (spec_isValidPlugboard s)"
proof (cases "isalpha s")
  case False
  then show ?thesis
    by (auto simp: valid_plugboard_def spec_isValidPlugboard_def isalpha_def list_all_iff
        char_isalpha_iff)
next
  case True
  then have alpha: "list_all char_isalpha s" and ne: "s \<noteq> []"
    by (simp_all add: isalpha_def)
  have letters: "\<forall>c\<in>set s. c \<in> set letters"
    using alpha by (simp add: list_all_iff char_isalpha_iff)
  have loop: "plugboard_loop s 0 = Inr (distinct (map casefold s))"
    by (simp add: plugboard_loop_eq [OF alpha] distinct_offsets_iff [OF alpha])
  show ?thesis
  proof (cases "2 \<le> length s \<and> length s \<le> 12 \<and> even (length s)")
    case True
    then have "int (length s) mod 2 \<noteq> 1" by presburger
    with True show ?thesis
      using \<open>isalpha s\<close> ne letters
      by (simp add: valid_plugboard_def spec_isValidPlugboard_def loop)
  next
    case False
    then have "\<not> (2 \<le> int (length s) \<and> int (length s) \<le> 12) \<or> int (length s) mod 2 = 1"
      by presburger
    with False show ?thesis
      by (auto simp: valid_plugboard_def spec_isValidPlugboard_def)
  qed
qed

subsection \<open>The translations\<close>

lemma range_by_2_add2: "range_by_2 (n + 2) = 0 # map (\<lambda>i. i + 2) (range_by_2 n)"
proof -
  have "(n + 2 + 1) div 2 = Suc ((n + 1) div 2)" by simp
  then have "[0..<(n + 2 + 1) div 2] = 0 # map Suc [0..<(n + 1) div 2]"
    by (simp only: upt_conv_Cons [of 0] map_Suc_upt)
  then show ?thesis by (simp add: range_by_2_def comp_def)
qed

lemma plug_swaps_Nil: "plug_swaps [] = []"
  by (simp add: plug_swaps_def range_by_2_def)

lemma plug_swaps_Cons2: "plug_swaps (a # b # s) = [a, b] # plug_swaps s"
proof -
  have "range_by_2 (length (a # b # s)) = 0 # map (\<lambda>i. i + 2) (range_by_2 (length s))"
    using range_by_2_add2 [of "length s"] by simp
  then show ?thesis
    by (simp add: plug_swaps_def slice_def comp_def)
qed

lemma plug_swaps_even:
  "length s = 2 * k \<Longrightarrow>
   length (plug_swaps s) = k \<and>
   (\<forall>j<k. plug_swaps s ! j = [s ! (2 * j), s ! (2 * j + 1)]) \<and>
   concat (plug_swaps s) = s"
proof (induction k arbitrary: s)
  case 0
  then show ?case by (simp add: plug_swaps_Nil)
next
  case (Suc k)
  then obtain a b t where s: "s = a # b # t" and t: "length t = 2 * k"
    by (cases s; cases "tl s") auto
  note IH = Suc.IH [OF t]
  have "plug_swaps s ! j = [s ! (2 * j), s ! (2 * j + 1)]" if "j < Suc k" for j
  proof (cases j)
    case 0
    then show ?thesis by (simp add: s plug_swaps_Cons2)
  next
    case (Suc i)
    with that have "i < k" by simp
    with IH have "plug_swaps t ! i = [t ! (2 * i), t ! (2 * i + 1)]" by simp
    then show ?thesis by (simp add: s Suc plug_swaps_Cons2)
  qed
  with IH show ?case by (simp add: s plug_swaps_Cons2)
qed

lemma slice_window:
  "2 * j + 1 < length s \<Longrightarrow> slice s (2 * j) (2 * j + 2) = [s ! (2 * j), s ! (2 * j + 1)]"
  by (simp add: slice_def take_Suc_conv_app_nth numeral_2_eq_2 Cons_nth_drop_Suc [symmetric])

lemma rotor_order_valid:
  assumes "valid_wheel_info w = Inr True"
  shows "length w = 3" "\<forall>c\<in>set w. WHEELS_DICT [c] \<noteq> None"
  using assms
  by (simp_all add: valid_wheel_info_def wheel_loop_eq split: if_splits)

lemma length3: "length w = 3 \<Longrightarrow> w = [w ! 0, w ! 1, w ! 2]"
  by (cases w; cases "tl w"; cases "tl (tl w)") auto

lemma plugboard_loop_unguarded: "plugboard_loop ''12'' 0 = Inl ValueError"
  by code_simp

subsection \<open>Reading the text, running the request\<close>

lemma stream_step_eq:
  "stream_step input_buffer line = (if line = newline then input_buffer else input_buffer @ [line])"
  by (simp add: stream_step_def endswith_newline_def)

lemma foldl_stream_step:
  "foldl stream_step input_buffer stdin = input_buffer @ filter (\<lambda>c. c \<noteq> newline) stdin"
  by (induction stdin arbitrary: input_buffer) (simp_all add: stream_step_eq)

lemma read_stream_filter: "read_stream stdin = filter (\<lambda>c. c \<noteq> newline) stdin"
  by (simp add: read_stream_def foldl_stream_step)

lemma encipher_calls_append:
  "encipher_calls (xs @ ys) = encipher_calls xs @ encipher_calls ys"
  by (induction xs rule: encipher_calls.induct) simp_all

lemma process_request_stream:
  "\<not> arg_p a \<Longrightarrow>
   \<exists>enigma plugged. (plugged = [] \<or> (\<exists>swaps. plugged = [SetPlugs swaps])) \<and>
     process_request eng a stdin =
       (Construct (upper (arg_m a)) (rotor_order (arg_w a)) # plugged @
          [Encipher (read_stream stdin), print (encipher eng enigma (read_stream stdin))],
        Returned)"
  by (cases "arg_s a") (auto simp add: process_request_def Let_def)

lemma process_request_prompt:
  "arg_p a \<Longrightarrow> raw_input stdin = Inr line \<Longrightarrow>
   \<exists>enigma plugged. (plugged = [] \<or> (\<exists>swaps. plugged = [SetPlugs swaps])) \<and>
     process_request eng a stdin =
       (Construct (upper (arg_m a)) (rotor_order (arg_w a)) # plugged @
          [Stdout prompt, Encipher line, print (encipher eng enigma line)],
        Returned)"
  by (cases "arg_s a") (auto simp add: process_request_def Let_def)

lemma raw_input_line:
  "newline \<notin> set line \<Longrightarrow> raw_input (line @ newline # rest) = Inr line"
  by (auto simp: raw_input_def takeWhile_tail)

lemma process_request_returns: "snd (process_request eng a stdin) \<noteq> Exit n"
  by (simp add: process_request_def Let_def split: option.split sum.split prod.split)

section \<open>The claims\<close>

text \<open>
  C1 as stated: in stream mode the acquired text is the input without one trailing line
  terminator, the embedded ones kept. The loop takes the terminator off after every
  character it appends, so the embedded ones go as well: \<^verbatim>\<open>"HI\nTHERE\n"\<close> does not
  give \<^verbatim>\<open>"HI\nTHERE"\<close>.
\<close>

theorem read_stream_keeps_embedded_counterexample:
  "read_stream ''HI\<newline>THERE\<newline>'' \<noteq> ''HI\<newline>THERE''"
  by code_simp

text \<open>
  C1, amended: in stream mode the acquired text is the whole input with every line
  terminator removed, embedded or trailing, and every other character kept in its place.
  So an input whose only terminator is a final one loses just that one, and an input
  without any is returned as it is: \<^verbatim>\<open>"HELLO\n"\<close> and \<^verbatim>\<open>"HELLO"\<close> give
  \<^verbatim>\<open>"HELLO"\<close>, and \<^verbatim>\<open>"HI\nTHERE\n"\<close> gives \<^verbatim>\<open>"HITHERE"\<close>.
\<close>

theorem read_stream_drops_every_newline:
  "read_stream c = filter (\<lambda>ch. ch \<noteq> newline) c \<and>
   (newline \<notin> set d \<longrightarrow> read_stream (d @ [newline]) = d \<and> read_stream d = d) \<and>
   read_stream ''HELLO\<newline>'' = ''HELLO'' \<and>
   read_stream ''HELLO'' = ''HELLO'' \<and>
   read_stream ''HI\<newline>THERE\<newline>'' = ''HITHERE''"
proof (intro conjI impI)
  show "read_stream c = filter (\<lambda>ch. ch \<noteq> newline) c"
    by (rule read_stream_filter)
  show "read_stream ''HELLO\<newline>'' = ''HELLO''" by code_simp
  show "read_stream ''HELLO'' = ''HELLO''" by code_simp
  show "read_stream ''HI\<newline>THERE\<newline>'' = ''HITHERE''" by code_simp
  assume clean: "newline \<notin> set d"
  then have keep: "filter (\<lambda>ch. ch \<noteq> newline) d = d"
    by (induction d) auto
  then show "read_stream d = d" by (simp add: read_stream_filter)
  from keep show "read_stream (d @ [newline]) = d" by (simp add: read_stream_filter)
qed

theorem read_stream_drops_every_newline_witness:
  "newline \<notin> set ''HELLO'' \<and> read_stream (''HELLO'' @ [newline]) = ''HELLO'' \<and>
   read_stream ''A\<newline>B'' = ''AB''"
proof -
  have clean: "newline \<notin> set ''HELLO''" by (simp add: newline_def)
  have two: "filter (\<lambda>ch. ch \<noteq> newline) ''A\<newline>B'' = ''AB''" by (simp add: newline_def)
  show ?thesis
    using clean two read_stream_drops_every_newline [of "''A\<newline>B''" "''HELLO''"] by simp
qed

text \<open>
  C2: for every string \<open>s\<close>, \<^verbatim>\<open>valid_plugboard(s)\<close> returns true if and only if \<open>s\<close> is
  non-empty and purely alphabetic, has an even length between 2 and 12, and holds no letter
  twice when case is ignored. \<^verbatim>\<open>"AZYB"\<close> and \<^verbatim>\<open>"azYB"\<close> are accepted; \<^verbatim>\<open>"AZAB"\<close>,
  \<^verbatim>\<open>"A"\<close>, the empty string and every string of 13 characters are rejected.
\<close>

theorem valid_plugboard_iff:
  "valid_plugboard s = Inr (spec_isValidPlugboard s) \<and>
   valid_plugboard ''AZYB'' = Inr True \<and>
   valid_plugboard ''azYB'' = Inr True \<and>
   valid_plugboard ''AZAB'' = Inr False \<and>
   valid_plugboard ''A'' = Inr False \<and>
   valid_plugboard [] = Inr False \<and>
   (length t = 13 \<longrightarrow> valid_plugboard t = Inr False)"
proof (intro conjI impI)
  show "valid_plugboard s = Inr (spec_isValidPlugboard s)"
    by (rule valid_plugboard_eq)
  show "valid_plugboard ''AZYB'' = Inr True" by code_simp
  show "valid_plugboard ''azYB'' = Inr True" by code_simp
  show "valid_plugboard ''AZAB'' = Inr False" by code_simp
  show "valid_plugboard ''A'' = Inr False" by code_simp
  show "valid_plugboard [] = Inr False" by code_simp
  assume "length t = 13"
  then show "valid_plugboard t = Inr False"
    by (simp add: valid_plugboard_def)
qed

theorem valid_plugboard_iff_witness:
  "spec_isValidPlugboard ''AZYB'' \<and> length ''ABCDEFGHIJKLM'' = 13 \<and>
   valid_plugboard ''ABCDEFGHIJKLM'' = Inr False"
  using valid_plugboard_iff [of "''AZYB''" "''ABCDEFGHIJKLM''"] by auto

text \<open>
  C3: for every string \<open>s\<close>, \<^verbatim>\<open>valid_wheel_info(s)\<close> returns true if and only if \<open>s\<close> has
  three characters, each a decimal digit and each one of 1, 2, 3 and 5. A digit may
  repeat (\<^verbatim>\<open>"113"\<close> is accepted); \<^verbatim>\<open>"124"\<close>, a string of another length and a string
  with a character that is no digit are rejected.
\<close>

theorem valid_wheel_info_iff:
  "valid_wheel_info s = Inr (spec_isValidRotorOrder s) \<and>
   valid_wheel_info ''113'' = Inr True \<and>
   valid_wheel_info ''135'' = Inr True \<and>
   valid_wheel_info ''124'' = Inr False \<and>
   valid_wheel_info ''12'' = Inr False \<and>
   (length t \<noteq> 3 \<longrightarrow> valid_wheel_info t = Inr False) \<and>
   ((\<exists>c\<in>set u. c \<notin> set decimal_digits) \<longrightarrow> valid_wheel_info u = Inr False)"
proof (intro conjI impI)
  show "valid_wheel_info s = Inr (spec_isValidRotorOrder s)"
    by (rule valid_wheel_info_eq)
  show "valid_wheel_info ''113'' = Inr True" by code_simp
  show "valid_wheel_info ''135'' = Inr True" by code_simp
  show "valid_wheel_info ''124'' = Inr False" by code_simp
  show "valid_wheel_info ''12'' = Inr False" by code_simp
  show "valid_wheel_info t = Inr False" if "length t \<noteq> 3"
    using that by (simp add: valid_wheel_info_def)
  show "valid_wheel_info u = Inr False" if "\<exists>c\<in>set u. c \<notin> set decimal_digits"
    using that by (auto simp: valid_wheel_info_eq spec_isValidRotorOrder_def)
qed

theorem valid_wheel_info_iff_witness:
  "spec_isValidRotorOrder ''113'' \<and>
   length ''1235'' \<noteq> 3 \<and> valid_wheel_info ''1235'' = Inr False \<and>
   (\<exists>c\<in>set ''1a3''. c \<notin> set decimal_digits) \<and> valid_wheel_info ''1a3'' = Inr False"
proof -
  have digit: "\<exists>c\<in>set ''1a3''. c \<notin> set decimal_digits"
    by (simp add: decimal_digits_def)
  show ?thesis
    using digit valid_wheel_info_iff [of "''113''" "''1235''" "''1a3''"] by auto
qed

text \<open>
  C4: \<^verbatim>\<open>main\<close> checks the message key, then the rotor order, then the plugboard when
  one was given. At the first that fails it prints the message of that parameter and
  exits with status 1: the run is that one line of output, whatever the later parameters
  are, and no call into the engine. When all pass, the run is that of
  \<^verbatim>\<open>process_request\<close>. The three messages differ from one another.
\<close>

theorem main_reports_first_failure:
  "(length (arg_m a) \<noteq> 3 \<or> \<not> isalpha (arg_m a) \<longrightarrow>
      main eng a stdin = ([print invalid_m], Exit 1)) \<and>
   (length (arg_m a) = 3 \<and> isalpha (arg_m a) \<and> valid_wheel_info (arg_w a) = Inr False \<longrightarrow>
      main eng a stdin = ([print invalid_w], Exit 1)) \<and>
   (length (arg_m a) = 3 \<and> isalpha (arg_m a) \<and> valid_wheel_info (arg_w a) = Inr True \<and>
    arg_s a = Some s \<and> valid_plugboard s = Inr False \<longrightarrow>
      main eng a stdin = ([print invalid_s], Exit 1)) \<and>
   (length (arg_m a) = 3 \<and> isalpha (arg_m a) \<and> valid_wheel_info (arg_w a) = Inr True \<and>
    (arg_s a = None \<or> (\<exists>s. arg_s a = Some s \<and> valid_plugboard s = Inr True)) \<longrightarrow>
      main eng a stdin = process_request eng a stdin) \<and>
   (snd (main eng a stdin) = Exit n \<longrightarrow>
      n = 1 \<and> fst (main eng a stdin) \<in> {[print invalid_m], [print invalid_w], [print invalid_s]} \<and>
      \<not> list_ex uses_engine (fst (main eng a stdin))) \<and>
   invalid_m \<noteq> invalid_w \<and> invalid_m \<noteq> invalid_s \<and> invalid_w \<noteq> invalid_s"
proof (intro conjI impI)
  assume "length (arg_m a) \<noteq> 3 \<or> \<not> isalpha (arg_m a)"
  then show "main eng a stdin = ([print invalid_m], Exit 1)"
    by (auto simp: main_def)
next
  assume "length (arg_m a) = 3 \<and> isalpha (arg_m a) \<and> valid_wheel_info (arg_w a) = Inr False"
  then show "main eng a stdin = ([print invalid_w], Exit 1)"
    by (simp add: main_def)
next
  assume "length (arg_m a) = 3 \<and> isalpha (arg_m a) \<and> valid_wheel_info (arg_w a) = Inr True \<and>
    arg_s a = Some s \<and> valid_plugboard s = Inr False"
  then show "main eng a stdin = ([print invalid_s], Exit 1)"
    by (simp add: main_def)
next
  assume "length (arg_m a) = 3 \<and> isalpha (arg_m a) \<and> valid_wheel_info (arg_w a) = Inr True \<and>
    (arg_s a = None \<or> (\<exists>s. arg_s a = Some s \<and> valid_plugboard s = Inr True))"
  then show "main eng a stdin = process_request eng a stdin"
    by (auto simp: main_def)
next
  assume exit: "snd (main eng a stdin) = Exit n"
  then have cases: "main eng a stdin = ([print invalid_m], Exit 1) \<or>
      main eng a stdin = ([print invalid_w], Exit 1) \<or>
      main eng a stdin = ([print invalid_s], Exit 1)"
    using process_request_returns [of eng a stdin n]
    by (auto simp: main_def split: if_splits sum.splits option.splits)
  with exit show "n = 1" by auto
  from cases show "fst (main eng a stdin) \<in> {[print invalid_m], [print invalid_w], [print invalid_s]}"
    by auto
  from cases show "\<not> list_ex uses_engine (fst (main eng a stdin))"
    by (auto simp: print_def)
next
  show "invalid_m \<noteq> invalid_w" by (simp add: invalid_m_def invalid_w_def)
  show "invalid_m \<noteq> invalid_s" by (simp add: invalid_m_def invalid_s_def)
  show "invalid_w \<noteq> invalid_s" by (simp add: invalid_w_def invalid_s_def)
qed

theorem main_reports_first_failure_witness:
  "main echo_engine \<lparr>arg_w = ''124'', arg_m = ''AB'', arg_s = Some ''AZAB'', arg_p = False\<rparr> ''TEXT''
     = ([print invalid_m], Exit 1) \<and>
   main echo_engine \<lparr>arg_w = ''124'', arg_m = ''ABC'', arg_s = Some ''AZAB'', arg_p = False\<rparr> ''TEXT''
     = ([print invalid_w], Exit 1) \<and>
   main echo_engine \<lparr>arg_w = ''123'', arg_m = ''ABC'', arg_s = Some ''AZAB'', arg_p = False\<rparr> ''TEXT''
     = ([print invalid_s], Exit 1) \<and>
   main echo_engine \<lparr>arg_w = ''123'', arg_m = ''ABC'', arg_s = None, arg_p = False\<rparr> ''TEXT''
     = ([Construct ''ABC'' [Some ''I'', Some ''II'', Some ''III''], Encipher ''TEXT'',
         print ''TEXT''], Returned)"
proof -
  have key_short: "length ''AB'' \<noteq> 3" by simp
  have key: "length ''ABC'' = 3 \<and> isalpha ''ABC''" by code_simp
  have wheels_bad: "valid_wheel_info ''124'' = Inr False" by code_simp
  have wheels: "valid_wheel_info ''123'' = Inr True" by code_simp
  have plugs_bad: "valid_plugboard ''AZAB'' = Inr False" by code_simp
  have run: "process_request echo_engine
      \<lparr>arg_w = ''123'', arg_m = ''ABC'', arg_s = None, arg_p = False\<rparr> ''TEXT''
    = ([Construct ''ABC'' [Some ''I'', Some ''II'', Some ''III''], Encipher ''TEXT'',
        print ''TEXT''], Returned)"
    by code_simp
  show ?thesis
    using key_short key wheels_bad wheels plugs_bad run
      main_reports_first_failure [where eng = echo_engine and stdin = "''TEXT''" and n = 1
        and s = "''AZAB''"
        and a = "\<lparr>arg_w = ''124'', arg_m = ''AB'', arg_s = Some ''AZAB'', arg_p = False\<rparr>"]
      main_reports_first_failure [where eng = echo_engine and stdin = "''TEXT''" and n = 1
        and s = "''AZAB''"
        and a = "\<lparr>arg_w = ''124'', arg_m = ''ABC'', arg_s = Some ''AZAB'', arg_p = False\<rparr>"]
      main_reports_first_failure [where eng = echo_engine and stdin = "''TEXT''" and n = 1
        and s = "''AZAB''"
        and a = "\<lparr>arg_w = ''123'', arg_m = ''ABC'', arg_s = Some ''AZAB'', arg_p = False\<rparr>"]
      main_reports_first_failure [where eng = echo_engine and stdin = "''TEXT''" and n = 1
        and s = "''AZAB''"
        and a = "\<lparr>arg_w = ''123'', arg_m = ''ABC'', arg_s = None, arg_p = False\<rparr>"]
    by simp
qed

text \<open>
  C5: the plugboard translation keeps the order: a packed string of even length \<open>2k\<close>
  (every validated one is) gives exactly the \<open>k\<close> windows \<^verbatim>\<open>s[0:2]\<close>, \<^verbatim>\<open>s[2:4]\<close>, ...,
  one after the other and none overlapping, so that the windows put end to end are the
  string again. \<^verbatim>\<open>"AZYB"\<close> gives A-Z, then Y-B.
\<close>

theorem plug_swaps_windows:
  "(length s = 2 * k \<longrightarrow>
      length (plug_swaps s) = k \<and>
      (\<forall>j<k. plug_swaps s ! j = slice s (2 * j) (2 * j + 2) \<and>
             plug_swaps s ! j = [s ! (2 * j), s ! (2 * j + 1)]) \<and>
      concat (plug_swaps s) = s) \<and>
   (valid_plugboard s = Inr True \<longrightarrow> even (length s)) \<and>
   plug_swaps ''AZYB'' = [''AZ'', ''YB'']"
proof (intro conjI impI allI)
  assume len: "length s = 2 * k"
  note windows = plug_swaps_even [OF len]
  show "length (plug_swaps s) = k" using windows by simp
  show "concat (plug_swaps s) = s" using windows by simp
  fix j
  assume "j < k"
  with windows have pair: "plug_swaps s ! j = [s ! (2 * j), s ! (2 * j + 1)]" by simp
  from \<open>j < k\<close> len have "2 * j + 1 < length s" by simp
  then have "slice s (2 * j) (2 * j + 2) = [s ! (2 * j), s ! (2 * j + 1)]"
    by (rule slice_window)
  with pair show "plug_swaps s ! j = slice s (2 * j) (2 * j + 2)" by (simp only:)
  from pair show "plug_swaps s ! j = [s ! (2 * j), s ! (2 * j + 1)]" .
next
  assume "valid_plugboard s = Inr True"
  then have "spec_isValidPlugboard s" by (simp add: valid_plugboard_eq)
  then show "even (length s)" by (simp add: spec_isValidPlugboard_def)
next
  show "plug_swaps ''AZYB'' = [''AZ'', ''YB'']" by code_simp
qed

theorem plug_swaps_windows_witness:
  "valid_plugboard ''EDCTAB'' = Inr True \<and> length ''EDCTAB'' = 2 * 3 \<and>
   plug_swaps ''EDCTAB'' = [''ED'', ''CT'', ''AB'']"
proof -
  have valid: "valid_plugboard ''EDCTAB'' = Inr True" by code_simp
  have len: "length ''EDCTAB'' = 2 * 3" by simp
  have swaps: "plug_swaps ''EDCTAB'' = [''ED'', ''CT'', ''AB'']" by code_simp
  show ?thesis
    using valid len swaps plug_swaps_windows [of "''EDCTAB''" 3] by simp
qed

text \<open>
  C6: the rotor translation is an elementwise lookup in the fixed table that sends
  \<^verbatim>\<open>"1"\<close> to I, \<^verbatim>\<open>"2"\<close> to II, \<^verbatim>\<open>"3"\<close> to III and \<^verbatim>\<open>"5"\<close> to V: for a validated
  rotor string the translated order is the three table entries of its characters, from
  left to right. \<^verbatim>\<open>"312"\<close> gives III, I, II.
\<close>

theorem rotor_order_lookup:
  "(valid_wheel_info w = Inr True \<longrightarrow>
     rotor_order w = [WHEELS_DICT [w ! 0], WHEELS_DICT [w ! 1], WHEELS_DICT [w ! 2]]) \<and>
   WHEELS_DICT ''1'' = Some ''I'' \<and> WHEELS_DICT ''2'' = Some ''II'' \<and>
   WHEELS_DICT ''3'' = Some ''III'' \<and> WHEELS_DICT ''5'' = Some ''V'' \<and>
   dom WHEELS_DICT = {''1'', ''2'', ''3'', ''5''} \<and>
   rotor_order ''312'' = [Some ''III'', Some ''I'', Some ''II'']"
proof (intro conjI impI)
  assume "valid_wheel_info w = Inr True"
  then have "length w = 3" by (rule rotor_order_valid(1))
  then have "w = [w ! 0, w ! 1, w ! 2]" by (rule length3)
  then have "rotor_order w = rotor_order [w ! 0, w ! 1, w ! 2]" by simp
  then show "rotor_order w = [WHEELS_DICT [w ! 0], WHEELS_DICT [w ! 1], WHEELS_DICT [w ! 2]]"
    by (simp add: rotor_order_def)
next
  show "dom WHEELS_DICT = {''1'', ''2'', ''3'', ''5''}"
    by (auto simp: WHEELS_DICT_def)
qed (simp_all add: WHEELS_DICT_def rotor_order_def)

theorem rotor_order_lookup_witness:
  "valid_wheel_info ''523'' = Inr True \<and>
   rotor_order ''523'' = [Some ''V'', Some ''II'', Some ''III'']"
proof -
  have valid: "valid_wheel_info ''523'' = Inr True" by code_simp
  show ?thesis
    using valid rotor_order_lookup [of "''523''"] by simp
qed

text \<open>
  C7: the validators are total functions of their string argument: on every string, well
  formed or not, \<^verbatim>\<open>valid_plugboard\<close> and \<^verbatim>\<open>valid_wheel_info\<close> return a boolean and
  raise nothing. (They are functions of the string alone and touch no state; in
  \<^verbatim>\<open>valid_plugboard\<close> the test before the loop is what keeps the shift count from being
  negative, see \<open>plugboard_loop_unguarded\<close>.)
\<close>

theorem validators_never_raise:
  "(\<exists>b. valid_plugboard s = Inr b) \<and> (\<exists>b. valid_wheel_info s = Inr b)"
proof
  show "\<exists>b. valid_plugboard s = Inr b"
  proof (cases "isalpha s")
    case True
    then have "list_all char_isalpha s" by (simp add: isalpha_def)
    then have "\<exists>b. plugboard_loop s 0 = Inr b"
      by (simp add: plugboard_loop_eq)
    moreover have "valid_plugboard s = Inr False \<or> valid_plugboard s = plugboard_loop s 0"
      by (simp add: valid_plugboard_def)
    ultimately show ?thesis by auto
  next
    case False
    then have "valid_plugboard s = Inr False" by (simp add: valid_plugboard_def)
    then show ?thesis by (rule exI)
  qed
  have "valid_wheel_info s = Inr False \<or> valid_wheel_info s = wheel_loop s"
    by (simp add: valid_wheel_info_def)
  then show "\<exists>b. valid_wheel_info s = Inr b"
    by (auto simp: wheel_loop_eq)
qed

theorem validators_never_raise_witness:
  "valid_plugboard ''12'' = Inr False \<and> valid_wheel_info ''12'' = Inr False \<and>
   plugboard_loop ''12'' 0 = Inl ValueError"
proof -
  have loop: "plugboard_loop ''12'' 0 = Inl ValueError" by code_simp
  have "valid_plugboard ''12'' \<noteq> Inr True" by code_simp
  moreover have "valid_wheel_info ''12'' \<noteq> Inr True" by code_simp
  ultimately show ?thesis
    using loop validators_never_raise [of "''12''"] by auto
qed

text \<open>
  C8: in prompt mode the fixed prompt is written, one line is read from the input (the
  model of \<^verbatim>\<open>raw_input\<close> takes it from the input string, which stands for waiting
  until the user has ended the line), and the line without its terminator is the text of
  the one call of \<^verbatim>\<open>encipher\<close>, made after the prompt.
\<close>

theorem prompt_mode_reads_one_line:
  "prompt = ''Enter your text and press <Enter>: '' \<and>
   (arg_p a \<and> newline \<notin> set line \<longrightarrow>
      raw_input (line @ newline # rest) = Inr line \<and>
      (\<exists>before result.
         process_request eng a (line @ newline # rest) =
           (before @ [Stdout prompt, Encipher line, print result], Returned) \<and>
         encipher_calls before = []) \<and>
      encipher_calls (fst (process_request eng a (line @ newline # rest))) = [line])"
proof (intro conjI impI)
  show "prompt = ''Enter your text and press <Enter>: ''"
    by (simp add: prompt_def)
next
  assume "arg_p a \<and> newline \<notin> set line"
  then have p: "arg_p a" and clean: "newline \<notin> set line" by simp_all
  then show "raw_input (line @ newline # rest) = Inr line"
    by (simp add: raw_input_line)
  from process_request_prompt [OF p raw_input_line [OF clean], of eng rest]
  obtain enigma plugged
    where plugged: "plugged = [] \<or> (\<exists>swaps. plugged = [SetPlugs swaps])"
      and run: "process_request eng a (line @ newline # rest) =
        (Construct (upper (arg_m a)) (rotor_order (arg_w a)) # plugged @
           [Stdout prompt, Encipher line, print (encipher eng enigma line)], Returned)"
    by blast
  let ?before = "Construct (upper (arg_m a)) (rotor_order (arg_w a)) # plugged"
  have none: "encipher_calls ?before = []"
    using plugged by auto
  have "process_request eng a (line @ newline # rest) =
      (?before @ [Stdout prompt, Encipher line, print (encipher eng enigma line)], Returned)"
    using run by simp
  with none show "\<exists>before result.
      process_request eng a (line @ newline # rest) =
        (before @ [Stdout prompt, Encipher line, print result], Returned) \<and>
      encipher_calls before = []"
    by blast
  from run plugged
  show "encipher_calls (fst (process_request eng a (line @ newline # rest))) = [line]"
    by (auto simp: encipher_calls_append print_def)
qed

theorem prompt_mode_reads_one_line_witness:
  "arg_p \<lparr>arg_w = ''312'', arg_m = ''XYZ'', arg_s = Some ''EDCTAB'', arg_p = True\<rparr> \<and>
   newline \<notin> set ''ENIGMACRYPTO'' \<and>
   raw_input (''ENIGMACRYPTO'' @ newline # ''more'') = Inr ''ENIGMACRYPTO'' \<and>
   encipher_calls (fst (process_request echo_engine
     \<lparr>arg_w = ''312'', arg_m = ''XYZ'', arg_s = Some ''EDCTAB'', arg_p = True\<rparr>
     (''ENIGMACRYPTO'' @ newline # ''more''))) = [''ENIGMACRYPTO'']"
proof -
  have clean: "newline \<notin> set ''ENIGMACRYPTO''" by (simp add: newline_def)
  show ?thesis
    using clean prompt_mode_reads_one_line [of
      "\<lparr>arg_w = ''312'', arg_m = ''XYZ'', arg_s = Some ''EDCTAB'', arg_p = True\<rparr>"
      "''ENIGMACRYPTO''" "''more''" echo_engine]
    by simp
qed

text \<open>
  C9: when the rotor string has passed \<^verbatim>\<open>valid_wheel_info\<close>, every lookup of the rotor
  translation is defined: the translated order has a rotor name at each of its three
  positions and \<^verbatim>\<open>None\<close> at none.
\<close>

theorem rotor_order_defined:
  "valid_wheel_info w = Inr True \<Longrightarrow>
   length (rotor_order w) = 3 \<and> None \<notin> set (rotor_order w) \<and>
   (\<forall>i<3. \<exists>r. rotor_order w ! i = Some r)"
proof -
  assume v: "valid_wheel_info w = Inr True"
  have len: "length (rotor_order w) = 3"
    using rotor_order_valid(1) [OF v] by (simp add: rotor_order_def)
  have none: "None \<notin> set (rotor_order w)"
    using rotor_order_valid(2) [OF v] by (auto simp: rotor_order_def)
  have "\<exists>r. rotor_order w ! i = Some r" if "i < 3" for i
  proof -
    from that len have "rotor_order w ! i \<in> set (rotor_order w)" by simp
    with none show ?thesis by (cases "rotor_order w ! i") auto
  qed
  with len none show ?thesis by simp
qed

theorem rotor_order_defined_witness:
  "valid_wheel_info ''515'' = Inr True \<and> length (rotor_order ''515'') = 3 \<and>
   None \<notin> set (rotor_order ''515'') \<and> rotor_order ''515'' ! 2 = Some ''V''"
proof -
  have valid: "valid_wheel_info ''515'' = Inr True" by code_simp
  have third: "rotor_order ''515'' ! 2 = Some ''V''" by code_simp
  show ?thesis
    using valid third rotor_order_defined [OF valid] by simp
qed

text \<open>
  C10: whatever the input, the text acquired in stream mode is the input with each line
  terminator met while accumulating it removed, embedded or trailing, and nothing else
  changed: from any buffer the loop appends the characters of the input other than the
  terminators, in order. So the acquired text holds no line terminator at all, and in
  stream mode that text is the one handed to the single call of \<^verbatim>\<open>encipher\<close>.
\<close>

theorem stream_text_is_input_without_newlines:
  "read_stream stdin = filter (\<lambda>c. c \<noteq> newline) stdin \<and>
   foldl stream_step input_buffer stdin = input_buffer @ filter (\<lambda>c. c \<noteq> newline) stdin \<and>
   newline \<notin> set (read_stream stdin) \<and>
   length (read_stream stdin) + count_list stdin newline = length stdin \<and>
   (\<not> arg_p a \<longrightarrow>
      encipher_calls (fst (process_request eng a stdin)) =
        [filter (\<lambda>c. c \<noteq> newline) stdin])"
proof (intro conjI impI)
  show acquired: "read_stream stdin = filter (\<lambda>c. c \<noteq> newline) stdin"
    by (rule read_stream_filter)
  show "foldl stream_step input_buffer stdin =
      input_buffer @ filter (\<lambda>c. c \<noteq> newline) stdin"
    by (rule foldl_stream_step)
  show "newline \<notin> set (read_stream stdin)"
    unfolding acquired by simp
  show "length (read_stream stdin) + count_list stdin newline = length stdin"
    unfolding acquired by (induction stdin) simp_all
  assume "\<not> arg_p a"
  from process_request_stream [OF this, of eng stdin]
  have "encipher_calls (fst (process_request eng a stdin)) = [read_stream stdin]"
    by (auto simp: encipher_calls_append print_def)
  then show "encipher_calls (fst (process_request eng a stdin)) =
      [filter (\<lambda>c. c \<noteq> newline) stdin]"
    unfolding acquired .
qed

theorem stream_text_is_input_without_newlines_witness:
  "\<not> arg_p \<lparr>arg_w = ''312'', arg_m = ''XYZ'', arg_s = Some ''EDCTAB'', arg_p = False\<rparr> \<and>
   read_stream ''AF\<newline>MC\<newline>\<newline>XZ'' = ''AFMCXZ'' \<and>
   encipher_calls (fst (process_request echo_engine
     \<lparr>arg_w = ''312'', arg_m = ''XYZ'', arg_s = Some ''EDCTAB'', arg_p = False\<rparr>
     ''AF\<newline>MC\<newline>\<newline>XZ'')) = [''AFMCXZ'']"
  using stream_text_is_input_without_newlines [of "''AF\<newline>MC\<newline>\<newline>XZ''" "[]"
      "\<lparr>arg_w = ''312'', arg_m = ''XYZ'', arg_s = Some ''EDCTAB'', arg_p = False\<rparr>"
      echo_engine]
  by (simp add: newline_def)

end
